theory Spec2Isabelle
  imports Main "HOL-Library.Word"
begin

section \<open>The Faucet contract\<close>

text \<open>
  A shallow embedding of \<^verbatim>\<open>contracts/FaucetContract.sol\<close> with its bases
  \<^verbatim>\<open>Owned.sol\<close> and \<^verbatim>\<open>Logger.sol\<close>.

  Solidity's \<^verbatim>\<open>address\<close> is a 160-bit value, \<^verbatim>\<open>uint\<close> a 256-bit unsigned integer and
  \<^verbatim>\<open>uint8\<close> an 8-bit one. A Solidity mapping has a value at every key, the zero value of
  its value type where nothing was stored, so a mapping is a total function here.
\<close>

type_synonym address = "160 word"
type_synonym uint = "256 word"
type_synonym uint8 = "8 word"

text \<open>
  The ways a call can revert: the two \<^verbatim>\<open>require\<close> statements, a \<^verbatim>\<open>transfer\<close> the
  contract cannot pay for, a \<^verbatim>\<open>transfer\<close> the recipient does not take, and the panics
  of the language itself (checked arithmetic, an array index out of bounds).
\<close>

datatype error = LimitExceeded | InsufficientFunds | PaymentRefused | NotAuthorized | Panic

text \<open>
  The state variables of \<^verbatim>\<open>Faucet\<close> and of the contracts it inherits from, together with
  the part of the chain's ledger the contract can observe or change: \<open>balance\<close> is
  \<^verbatim>\<open>address(this).balance\<close> in wei, and \<open>accounts\<close> holds the wei of every other account.
  The contract has no code that calls its own address, so the caller of an external
  function is always one of these other accounts. Ledger entries are natural numbers:
  the chain's total supply is far below \<open>2 ^ 256\<close>, so no balance ever wraps.
\<close>

record faucet =
  owner :: address
  testNum :: uint
  numOfFunders :: uint
  funders :: "address \<Rightarrow> bool"
  lutFunders :: "uint \<Rightarrow> address"
  balance :: nat
  accounts :: "address \<Rightarrow> nat"

subsection \<open>Deployment\<close>

text \<open>
  The constructors of \<^verbatim>\<open>Owned\<close> (\<^verbatim>\<open>owner = msg.sender\<close>) and \<^verbatim>\<open>Logger\<close>
  (\<^verbatim>\<open>testNum = 1000\<close>); every other state variable starts at its zero value. The ledger
  at deployment is whatever the chain holds then.
\<close>

definition constructor :: "address \<Rightarrow> nat \<Rightarrow> (address \<Rightarrow> nat) \<Rightarrow> faucet" where
  "constructor sender bal accts =
     \<lparr>owner = sender, testNum = 1000, numOfFunders = 0,
      funders = (\<lambda>_. False), lutFunders = (\<lambda>_. 0),
      balance = bal, accounts = accts\<rparr>"

subsection \<open>Modifiers and language primitives\<close>

text \<open>\<^verbatim>\<open>modifier limitWithdraw(uint withdrawAmount)\<close>: the body runs only below the ceiling.\<close>

definition limitWithdraw :: "uint \<Rightarrow> (faucet \<Rightarrow> error + faucet) \<Rightarrow> faucet \<Rightarrow> error + faucet" where
  "limitWithdraw withdrawAmount body s =
     (if withdrawAmount \<le> 100000000000000000 then body s else Inl LimitExceeded)"

text \<open>\<^verbatim>\<open>modifier onlyOwner\<close> of \<^verbatim>\<open>Owned.sol\<close>.\<close>

definition onlyOwner :: "address \<Rightarrow> (faucet \<Rightarrow> error + faucet) \<Rightarrow> faucet \<Rightarrow> error + faucet" where
  "onlyOwner sender body s =
     (if sender = owner s then body s else Inl NotAuthorized)"

text \<open>
  A \<^verbatim>\<open>payable\<close> function is entered with \<^verbatim>\<open>msg.value\<close> already credited to the
  contract; a revert of the body takes the credit back with everything else.
\<close>

definition payable :: "uint \<Rightarrow> (faucet \<Rightarrow> error + faucet) \<Rightarrow> faucet \<Rightarrow> error + faucet" where
  "payable val body s = body (s\<lparr>balance := balance s + unat val\<rparr>)"

text \<open>
  \<^verbatim>\<open>payable(to).transfer(amount)\<close> sends \<open>amount\<close> wei to \<open>to\<close> with a plain call that
  forwards 2300 gas, and reverts when the call fails. The call fails when the contract
  holds less than \<open>amount\<close>; the recipient's code is not entered then. It also fails
  when the recipient does not take the payment: a contract with no \<^verbatim>\<open>receive\<close> or
  payable fallback function, or one whose function reverts or needs more than the gas
  forwarded. An externally owned account has no code and always takes it. The
  recipient's code is not part of this repository, and what it does may change from
  one call to the next, so whether the recipient takes the payment is an input of the
  call: \<open>accepts\<close>.
\<close>

definition transfer :: "address \<Rightarrow> bool \<Rightarrow> uint \<Rightarrow> faucet \<Rightarrow> error + faucet" where
  "transfer to accepts amount s =
     (if balance s < unat amount then Inl InsufficientFunds
      else if \<not> accepts then Inl PaymentRefused
      else Inr (s\<lparr>balance := balance s - unat amount,
                  accounts := (accounts s)(to := accounts s to + unat amount)\<rparr>))"

text \<open>
  \<^verbatim>\<open>numOfFunders++\<close> on a \<^verbatim>\<open>uint\<close>. The pragma admits compilers before and after 0.8:
  from 0.8 on the increment panics at the largest value, before it wraps to zero.
  \<open>checked\<close> says which compiler built the contract.
\<close>

definition increment :: "bool \<Rightarrow> uint \<Rightarrow> error + uint" where
  "increment checked n = (if checked \<and> n = - 1 then Inl Panic else Inr (n + 1))"

subsection \<open>Functions of the contract\<close>

text \<open>\<^verbatim>\<open>function test3() internal pure returns(uint)\<close> of \<^verbatim>\<open>Logger.sol\<close>.\<close>

definition test3 :: uint where
  "test3 = 100"

text \<open>\<^verbatim>\<open>receive() external payable {}\<close>\<close>

definition receive :: "address \<Rightarrow> uint \<Rightarrow> faucet \<Rightarrow> error + faucet" where
  "receive sender val = payable val Inr"

text \<open>
  \<^verbatim>\<open>function addFunds() override external payable\<close>. The value of \<^verbatim>\<open>test3()\<close> is
  computed and dropped, as in the source.
\<close>

definition addFunds :: "bool \<Rightarrow> address \<Rightarrow> uint \<Rightarrow> faucet \<Rightarrow> error + faucet" where
  "addFunds checked sender val =
     payable val (\<lambda>s.
       let funder = sender;
           _ = test3
       in if \<not> funders s funder
          then (case increment checked (numOfFunders s) of
                  Inl e \<Rightarrow> Inl e
                | Inr n' \<Rightarrow>
                    let index = numOfFunders s;
                        s1 = s\<lparr>numOfFunders := n'\<rparr>;
                        s2 = s1\<lparr>funders := (funders s1)(funder := True)\<rparr>;
                        s3 = s2\<lparr>lutFunders := (lutFunders s2)(index := funder)\<rparr>
                    in Inr s3)
          else Inr s)"

text \<open>\<^verbatim>\<open>function test1() external onlyOwner\<close> and \<^verbatim>\<open>test2\<close>: empty bodies.\<close>

definition test1 :: "address \<Rightarrow> faucet \<Rightarrow> error + faucet" where
  "test1 sender = onlyOwner sender Inr"

definition test2 :: "address \<Rightarrow> faucet \<Rightarrow> error + faucet" where
  "test2 sender = onlyOwner sender Inr"

text \<open>
  \<^verbatim>\<open>function withdraw(uint withdrawAmount) override external limitWithdraw(withdrawAmount)\<close>.
  The recipient of the transfer is the caller, so \<open>accepts\<close> says whether the caller's
  account takes the payment.
\<close>

definition withdraw :: "address \<Rightarrow> bool \<Rightarrow> uint \<Rightarrow> faucet \<Rightarrow> error + faucet" where
  "withdraw sender accepts withdrawAmount =
     limitWithdraw withdrawAmount (transfer sender accepts withdrawAmount)"

text \<open>
  The loop of \<^verbatim>\<open>getAllFunders\<close>: \<^verbatim>\<open>for (uint i = 0; i < numOfFunders; i++)
  _funders[i] = lutFunders[i]\<close>. A write past the end of a memory array panics.
  Inside the loop \<open>i\<close> is below \<open>numOfFunders\<close>, so \<open>i++\<close> cannot overflow under
  either compiler.
\<close>

function getAllFunders_loop :: "faucet \<Rightarrow> uint \<Rightarrow> address list \<Rightarrow> error + address list" where
  "getAllFunders_loop s i fs =
     (if i < numOfFunders s
      then (if unat i < length fs
            then getAllFunders_loop s (i + 1) (fs[unat i := lutFunders s i])
            else Inl Panic)
      else Inr fs)"
  by pat_completeness auto
termination
proof (relation "measure (\<lambda>(s, i, fs). unat (numOfFunders s) - unat i)")
  show "wf (measure (\<lambda>(s, i, fs). unat (numOfFunders s) - unat i))"
    by simp
next
  fix s :: faucet and i :: uint and fs :: "address list"
  assume lt: "i < numOfFunders s"
  then have "i \<noteq> - 1"
    using max_word_max [of "numOfFunders s"] by auto
  then have "unat (i + 1) = Suc (unat i)"
    by (simp add: add.commute add_eq_0_iff unatSuc)
  with lt show "((s, i + 1, fs[unat i := lutFunders s i]), (s, i, fs))
      \<in> measure (\<lambda>(s, i, fs). unat (numOfFunders s) - unat i)"
    by (simp add: word_less_nat_alt)
qed

declare getAllFunders_loop.simps [simp del]

text \<open>
  \<^verbatim>\<open>function getAllFunders() external view returns (address[] memory)\<close>:
  \<^verbatim>\<open>new address[](numOfFunders)\<close> is an array of that many zero addresses.
\<close>

definition getAllFunders :: "faucet \<Rightarrow> error + address list" where
  "getAllFunders s =
     getAllFunders_loop s 0 (replicate (unat (numOfFunders s)) 0)"

text \<open>
  \<^verbatim>\<open>function getFunderAtIndex(uint8 index) external view returns(address)\<close>: the
  8-bit index is widened to the key type of \<^verbatim>\<open>lutFunders\<close>.
\<close>

definition getFunderAtIndex :: "uint8 \<Rightarrow> faucet \<Rightarrow> address" where
  "getFunderAtIndex index s = lutFunders s (ucast index)"

text \<open>\<^verbatim>\<open>function emitLog() public override pure returns(bytes32)\<close>\<close>

definition emitLog :: string where
  "emitLog = ''Hello World''"

subsection \<open>Transactions\<close>

text \<open>
  The calls the contract accepts. The functions that are not \<^verbatim>\<open>payable\<close> take no
  value. A call that reverts leaves the state as it was before the call; the three
  \<^verbatim>\<open>view\<close> and \<^verbatim>\<open>pure\<close> functions return a value and leave the state alone.
\<close>

datatype call =
    Receive address uint
  | AddFunds address uint
  | Test1 address
  | Test2 address
  | Withdraw address bool uint
  | GetAllFunders address
  | GetFunderAtIndex address uint8
  | EmitLog address

fun dispatch :: "bool \<Rightarrow> call \<Rightarrow> faucet \<Rightarrow> error + faucet" where
  "dispatch checked (Receive sender val) s = receive sender val s"
| "dispatch checked (AddFunds sender val) s = addFunds checked sender val s"
| "dispatch checked (Test1 sender) s = test1 sender s"
| "dispatch checked (Test2 sender) s = test2 sender s"
| "dispatch checked (Withdraw sender accepts amount) s = withdraw sender accepts amount s"
| "dispatch checked (GetAllFunders sender) s = Inr s"
| "dispatch checked (GetFunderAtIndex sender index) s = Inr s"
| "dispatch checked (EmitLog sender) s = Inr s"

definition transact :: "bool \<Rightarrow> call \<Rightarrow> faucet \<Rightarrow> faucet" where
  "transact checked c s = (case dispatch checked c s of Inl e \<Rightarrow> s | Inr s' \<Rightarrow> s')"

fun run :: "bool \<Rightarrow> call list \<Rightarrow> faucet \<Rightarrow> faucet" where
  "run checked [] s = s"
| "run checked (c # cs) s = run checked cs (transact checked c s)"

text \<open>The states the contract can be in: deployed, then any number of calls.\<close>

inductive reachable :: "bool \<Rightarrow> faucet \<Rightarrow> bool" for checked :: bool where
  deployed: "reachable checked (constructor sender bal accts)"
| called: "reachable checked s \<Longrightarrow> reachable checked (transact checked c s)"

subsection \<open>The registry as the specification sees it\<close>

text \<open>
  The specification speaks of \<open>funderCount\<close>, \<open>funderFlags\<close> and \<open>funderOrder\<close>. The first
  two are the state variables \<^verbatim>\<open>numOfFunders\<close> and \<^verbatim>\<open>funders\<close>. The third is not a
  variable of its own: it is the entries of \<^verbatim>\<open>lutFunders\<close> at the keys below
  \<^verbatim>\<open>numOfFunders\<close>, in the order of the keys.
\<close>

definition funderOrder :: "faucet \<Rightarrow> address list" where
  "funderOrder s = map (\<lambda>k. lutFunders s (of_nat k)) [0 ..< unat (numOfFunders s)]"

text \<open>
  What the specification expects \<open>funderOrder\<close> to hold after a history of calls: the
  callers of \<^verbatim>\<open>addFunds\<close>, each kept at its first call only.
\<close>

fun depositors :: "call list \<Rightarrow> address list" where
  "depositors [] = []"
| "depositors (AddFunds sender val # cs) = sender # depositors cs"
| "depositors (c # cs) = depositors cs"

fun firstOccurrences :: "'a list \<Rightarrow> 'a list" where
  "firstOccurrences [] = []"
| "firstOccurrences (x # xs) = x # removeAll x (firstOccurrences xs)"

text \<open>The position of the first \<open>a\<close> in a list (its length when there is none).\<close>

definition firstIndex :: "'a list \<Rightarrow> 'a \<Rightarrow> nat" where
  "firstIndex xs a = length (takeWhile (\<lambda>x. x \<noteq> a) xs)"

text \<open>The three invariants of the specification's data model, and the unused keys.\<close>

definition registryInv :: "faucet \<Rightarrow> bool" where
  "registryInv s \<longleftrightarrow>
     distinct (funderOrder s) \<and>
     (\<forall>a. funders s a = (a \<in> set (funderOrder s))) \<and>
     (\<forall>j. numOfFunders s \<le> j \<longrightarrow> lutFunders s j = 0)"

section \<open>Facts about the model\<close>

lemma unat_uint8_less: "unat (i :: uint8) < 256"
  using unsigned_less [of i] by simp

lemma word_less_not_max: "(i :: uint) < n \<Longrightarrow> i \<noteq> - 1"
  using max_word_max [of n] by auto

lemma unat_succ: "(n :: uint) \<noteq> - 1 \<Longrightarrow> unat (n + 1) = Suc (unat n)"
  by (simp add: add.commute add_eq_0_iff unatSuc)

text \<open>The loop fills the array from \<open>i\<close> on and keeps what is before \<open>i\<close>.\<close>

lemma getAllFunders_loop_eq:
  "length fs = unat (numOfFunders s) \<Longrightarrow>
   getAllFunders_loop s i fs =
     Inr (take (unat i) fs @ map (\<lambda>k. lutFunders s (of_nat k)) [unat i ..< unat (numOfFunders s)])"
proof (induction s i fs rule: getAllFunders_loop.induct)
  case (1 s i fs)
  show ?case
  proof (cases "i < numOfFunders s")
    case True
    then have lt: "unat i < unat (numOfFunders s)" by (simp add: word_less_nat_alt)
    have suc: "unat (i + 1) = Suc (unat i)"
      using True by (simp add: unat_succ word_less_not_max)
    have len: "length (fs[unat i := lutFunders s i]) = unat (numOfFunders s)"
      using "1.prems" by simp
    have step: "getAllFunders_loop s i fs = getAllFunders_loop s (i + 1) (fs[unat i := lutFunders s i])"
      using True lt "1.prems" by (subst getAllFunders_loop.simps) simp
    have rec: "getAllFunders_loop s (i + 1) (fs[unat i := lutFunders s i]) =
        Inr (take (unat (i + 1)) (fs[unat i := lutFunders s i]) @
        map (\<lambda>k. lutFunders s (of_nat k)) [unat (i + 1) ..< unat (numOfFunders s)])"
      using "1.IH" True lt "1.prems" len by simp
    have tk: "take (unat (i + 1)) (fs[unat i := lutFunders s i]) = take (unat i) fs @ [lutFunders s i]"
      using lt "1.prems" by (simp add: suc take_Suc_conv_app_nth)
    have up: "[unat i ..< unat (numOfFunders s)] = unat i # [unat (i + 1) ..< unat (numOfFunders s)]"
      using lt by (simp add: suc upt_conv_Cons)
    show ?thesis
      by (simp add: step rec tk up)
  next
    case False
    then have "unat (numOfFunders s) \<le> unat i" by (simp add: word_less_nat_alt)
    with False "1.prems" show ?thesis
      by (subst getAllFunders_loop.simps) simp
  qed
qed

lemma getAllFunders_eq: "getAllFunders s = Inr (funderOrder s)"
  by (simp add: getAllFunders_def funderOrder_def getAllFunders_loop_eq)

lemma length_funderOrder [simp]: "length (funderOrder s) = unat (numOfFunders s)"
  by (simp add: funderOrder_def)

lemma nth_funderOrder: "k < unat (numOfFunders s) \<Longrightarrow> funderOrder s ! k = lutFunders s (of_nat k)"
  by (simp add: funderOrder_def)

lemma distinct_addresses_bound: "distinct (xs :: address list) \<Longrightarrow> length xs \<le> 2 ^ 160"
proof -
  assume d: "distinct xs"
  have "card (set xs) \<le> card (UNIV :: address set)"
    by (rule card_mono) simp_all
  with d show ?thesis by (simp add: distinct_card card_word)
qed

lemma registryInv_not_full: "registryInv s \<Longrightarrow> numOfFunders s \<noteq> - 1"
proof
  assume inv: "registryInv s" and full: "numOfFunders s = - 1"
  from inv have "length (funderOrder s) \<le> 2 ^ 160"
    by (simp only: registryInv_def distinct_addresses_bound)
  moreover have "unat (- 1 :: uint) = 2 ^ 256 - 1"
    by (simp add: unsigned_minus_1_eq_mask mask_eq_exp_minus_1)
  ultimately show False using full by simp
qed

lemma addFunds_known:
  "funders s a \<Longrightarrow> addFunds checked a v s = Inr (s\<lparr>balance := balance s + unat v\<rparr>)"
  by (simp add: addFunds_def payable_def)

lemma addFunds_new:
  "\<not> funders s a \<Longrightarrow> numOfFunders s \<noteq> - 1 \<Longrightarrow>
   addFunds checked a v s =
     Inr (s\<lparr>balance := balance s + unat v,
            numOfFunders := numOfFunders s + 1,
            funders := (funders s)(a := True),
            lutFunders := (lutFunders s)(numOfFunders s := a)\<rparr>)"
  by (simp add: addFunds_def payable_def increment_def)

lemma funderOrder_balance [simp]: "funderOrder (s\<lparr>balance := b\<rparr>) = funderOrder s"
  by (simp add: funderOrder_def)

lemma funderOrder_accounts [simp]: "funderOrder (s\<lparr>accounts := b\<rparr>) = funderOrder s"
  by (simp add: funderOrder_def)

lemma funderOrder_funders [simp]: "funderOrder (s\<lparr>funders := b\<rparr>) = funderOrder s"
  by (simp add: funderOrder_def)

lemma funderOrder_append:
  assumes "numOfFunders s \<noteq> - 1"
  shows "funderOrder (s\<lparr>numOfFunders := numOfFunders s + 1,
                        lutFunders := (lutFunders s)(numOfFunders s := a)\<rparr>) = funderOrder s @ [a]"
proof -
  have old: "(of_nat k :: uint) \<noteq> numOfFunders s" if "k < unat (numOfFunders s)" for k
  proof
    assume "(of_nat k :: uint) = numOfFunders s"
    then have "unat (of_nat k :: uint) = unat (numOfFunders s)" by simp
    moreover have "unat (of_nat k :: uint) \<le> k" by (simp add: unat_of_nat)
    ultimately show False using that by simp
  qed
  show ?thesis
    using assms by (simp add: funderOrder_def unat_succ old)
qed

lemma registryInv_constructor: "registryInv (constructor d b accts)"
  by (simp add: registryInv_def constructor_def funderOrder_def)

lemma registryInv_balance [simp]: "registryInv (s\<lparr>balance := b\<rparr>) = registryInv s"
  by (simp add: registryInv_def)

lemma registryInv_accounts [simp]: "registryInv (s\<lparr>accounts := b\<rparr>) = registryInv s"
  by (simp add: registryInv_def)

lemma registryInv_register:
  assumes inv: "registryInv s" and new: "\<not> funders s a"
  shows "registryInv (s\<lparr>numOfFunders := numOfFunders s + 1,
                         funders := (funders s)(a := True),
                         lutFunders := (lutFunders s)(numOfFunders s := a)\<rparr>)"
proof -
  let ?s' = "s\<lparr>numOfFunders := numOfFunders s + 1,
                lutFunders := (lutFunders s)(numOfFunders s := a)\<rparr>"
  have nf: "numOfFunders s \<noteq> - 1" using inv by (rule registryInv_not_full)
  have fo: "funderOrder ?s' = funderOrder s @ [a]"
    using nf by (rule funderOrder_append)
  have notin: "a \<notin> set (funderOrder s)"
    using inv new by (simp add: registryInv_def)
  have d: "distinct (funderOrder s)" using inv by (simp add: registryInv_def)
  have fl: "\<forall>b. funders s b = (b \<in> set (funderOrder s))" using inv by (simp add: registryInv_def)
  have z: "\<forall>j. numOfFunders s \<le> j \<longrightarrow> lutFunders s j = 0" using inv by (simp add: registryInv_def)
  have above: "numOfFunders s < j" if "numOfFunders s + 1 \<le> j" for j
  proof -
    have "unat (numOfFunders s + 1) \<le> unat j" using that by (simp add: word_le_nat_alt)
    then show ?thesis using nf by (simp add: unat_succ word_less_nat_alt)
  qed
  have eq: "s\<lparr>numOfFunders := numOfFunders s + 1,
              funders := (funders s)(a := True),
              lutFunders := (lutFunders s)(numOfFunders s := a)\<rparr> = ?s'\<lparr>funders := (funders s)(a := True)\<rparr>"
    by simp
  show ?thesis
    unfolding eq registryInv_def
  proof (intro conjI allI impI)
    show "distinct (funderOrder (?s'\<lparr>funders := (funders s)(a := True)\<rparr>))"
      using d notin by (simp add: fo)
  next
    fix b
    show "funders (?s'\<lparr>funders := (funders s)(a := True)\<rparr>) b =
          (b \<in> set (funderOrder (?s'\<lparr>funders := (funders s)(a := True)\<rparr>)))"
      using fl by (simp add: fo)
  next
    fix j
    assume "numOfFunders (?s'\<lparr>funders := (funders s)(a := True)\<rparr>) \<le> j"
    then have "numOfFunders s < j" using above by simp
    then show "lutFunders (?s'\<lparr>funders := (funders s)(a := True)\<rparr>) j = 0"
      using z by auto
  qed
qed

lemma registryInv_addFunds:
  "registryInv s \<Longrightarrow> addFunds checked a v s = Inr s' \<Longrightarrow> registryInv s'"
proof (cases "funders s a")
  case True
  assume "registryInv s" "addFunds checked a v s = Inr s'"
  with True show ?thesis by (auto simp: addFunds_known)
next
  case False
  assume inv: "registryInv s" and r: "addFunds checked a v s = Inr s'"
  have nf: "numOfFunders s \<noteq> - 1" using inv by (rule registryInv_not_full)
  have "registryInv (s\<lparr>numOfFunders := numOfFunders s + 1,
                         funders := (funders s)(a := True),
                         lutFunders := (lutFunders s)(numOfFunders s := a)\<rparr>)"
    using inv False by (rule registryInv_register)
  moreover have "s' = s\<lparr>balance := balance s + unat v,
            numOfFunders := numOfFunders s + 1,
            funders := (funders s)(a := True),
            lutFunders := (lutFunders s)(numOfFunders s := a)\<rparr>"
    using r False nf by (simp add: addFunds_new)
  ultimately show ?thesis by (simp add: registryInv_def funderOrder_def)
qed

lemma transfer_registry:
  "transfer a acc v s = Inr s' \<Longrightarrow>
     s' = s\<lparr>balance := balance s - unat v, accounts := (accounts s)(a := accounts s a + unat v)\<rparr>"
  by (simp add: transfer_def split: if_splits)

lemma dispatch_other:
  "dispatch checked c s = Inr s' \<Longrightarrow> (\<forall>a v. c \<noteq> AddFunds a v) \<Longrightarrow>
     \<exists>b acc. s' = s\<lparr>balance := b, accounts := acc\<rparr>"
proof (cases c)
  case (Receive a v)
  assume "dispatch checked c s = Inr s'"
  with Receive have "s' = s\<lparr>balance := balance s + unat v\<rparr>"
    by (auto simp: receive_def payable_def)
  then have "s' = s\<lparr>balance := balance s + unat v, accounts := accounts s\<rparr>" by simp
  then show ?thesis by blast
next
  case (AddFunds a v)
  assume "\<forall>a v. c \<noteq> AddFunds a v"
  with AddFunds show ?thesis by simp
next
  case (Test1 a)
  assume "dispatch checked c s = Inr s'"
  with Test1 have "s' = s" by (auto simp: test1_def onlyOwner_def split: if_splits)
  then have "s' = s\<lparr>balance := balance s, accounts := accounts s\<rparr>" by simp
  then show ?thesis by blast
next
  case (Test2 a)
  assume "dispatch checked c s = Inr s'"
  with Test2 have "s' = s" by (auto simp: test2_def onlyOwner_def split: if_splits)
  then have "s' = s\<lparr>balance := balance s, accounts := accounts s\<rparr>" by simp
  then show ?thesis by blast
next
  case (Withdraw a acc v)
  assume "dispatch checked c s = Inr s'"
  with Withdraw have "transfer a acc v s = Inr s'"
    by (auto simp: withdraw_def limitWithdraw_def split: if_splits)
  then show ?thesis by (blast dest: transfer_registry)
next
  case (GetAllFunders a)
  assume "dispatch checked c s = Inr s'"
  with GetAllFunders have "s' = s\<lparr>balance := balance s, accounts := accounts s\<rparr>" by simp
  then show ?thesis by blast
next
  case (GetFunderAtIndex a i)
  assume "dispatch checked c s = Inr s'"
  with GetFunderAtIndex have "s' = s\<lparr>balance := balance s, accounts := accounts s\<rparr>" by simp
  then show ?thesis by blast
next
  case (EmitLog a)
  assume "dispatch checked c s = Inr s'"
  with EmitLog have "s' = s\<lparr>balance := balance s, accounts := accounts s\<rparr>" by simp
  then show ?thesis by blast
qed

lemma registryInv_transact: "registryInv s \<Longrightarrow> registryInv (transact checked c s)"
proof -
  assume inv: "registryInv s"
  show ?thesis
  proof (cases "dispatch checked c s")
    case (Inl e)
    with inv show ?thesis by (simp add: transact_def)
  next
    case (Inr s')
    show ?thesis
    proof (cases "\<exists>a v. c = AddFunds a v")
      case True
      then obtain a v where "c = AddFunds a v" by blast
      with Inr inv show ?thesis by (auto simp: transact_def dest: registryInv_addFunds)
    next
      case False
      with Inr obtain b acc where "s' = s\<lparr>balance := b, accounts := acc\<rparr>"
        using dispatch_other [of checked c s s'] by blast
      with Inr inv show ?thesis by (simp add: transact_def)
    qed
  qed
qed

lemma reachable_registryInv: "reachable checked s \<Longrightarrow> registryInv s"
  by (induction rule: reachable.induct) (simp_all add: registryInv_constructor registryInv_transact)

lemma reachable_run: "reachable checked s \<Longrightarrow> reachable checked (run checked cs s)"
  by (induction cs arbitrary: s) (simp_all add: reachable.called)

lemma set_firstOccurrences [simp]: "set (firstOccurrences xs) = set xs"
  by (induction xs) auto

lemma distinct_firstOccurrences [simp]: "distinct (firstOccurrences xs)"
  by (induction xs) (auto simp: distinct_removeAll)

lemma firstOccurrences_distinct: "distinct xs \<Longrightarrow> firstOccurrences xs = xs"
  by (induction xs) auto

lemma removeAll_firstOccurrences:
  "removeAll a (firstOccurrences xs) = firstOccurrences (removeAll a xs)"
proof (induction xs)
  case Nil
  show ?case by simp
next
  case (Cons x xs)
  show ?case
  proof (cases "x = a")
    case True
    with Cons show ?thesis by simp
  next
    case False
    have "removeAll a (removeAll x (firstOccurrences xs)) = removeAll x (removeAll a (firstOccurrences xs))"
      by (simp add: removeAll_filter_not_eq conj_commute)
    with False Cons show ?thesis by simp
  qed
qed

lemma firstOccurrences_repeat:
  "a \<in> set xs \<Longrightarrow> firstOccurrences (xs @ a # ys) = firstOccurrences (xs @ ys)"
proof (induction xs)
  case Nil
  then show ?case by simp
next
  case (Cons x xs)
  show ?case
  proof (cases "x = a")
    case True
    have "removeAll a (firstOccurrences (xs @ a # ys)) = removeAll a (firstOccurrences (xs @ ys))"
      by (simp add: removeAll_firstOccurrences)
    with True show ?thesis by simp
  next
    case False
    with Cons show ?thesis by simp
  qed
qed

lemma firstIndex_Cons:
  "firstIndex (x # xs) a = (if x = a then 0 else Suc (firstIndex xs a))"
  by (simp add: firstIndex_def)

lemma sorted_wrt_firstOccurrences:
  "sorted_wrt (\<lambda>a b. firstIndex xs a < firstIndex xs b) (firstOccurrences xs)"
proof (induction xs)
  case Nil
  show ?case by simp
next
  case (Cons x xs)
  have "sorted_wrt (\<lambda>a b. firstIndex xs a < firstIndex xs b) (removeAll x (firstOccurrences xs))"
    using Cons by (simp add: removeAll_filter_not_eq sorted_wrt_filter)
  then have "sorted_wrt (\<lambda>a b. firstIndex (x # xs) a < firstIndex (x # xs) b) (removeAll x (firstOccurrences xs))"
    by (rule sorted_wrt_mono_rel [rotated]) (auto simp: firstIndex_Cons)
  then show ?case by (auto simp: firstIndex_Cons)
qed

lemma funderOrder_transact:
  assumes inv: "registryInv s"
  shows "funderOrder (transact checked c s) =
           (case c of AddFunds a v \<Rightarrow> if a \<in> set (funderOrder s) then funderOrder s else funderOrder s @ [a]
                    | _ \<Rightarrow> funderOrder s)"
proof (cases "\<exists>a v. c = AddFunds a v")
  case True
  then obtain a v where c: "c = AddFunds a v" by blast
  have nf: "numOfFunders s \<noteq> - 1" using inv by (rule registryInv_not_full)
  have fl: "funders s a = (a \<in> set (funderOrder s))" using inv by (simp add: registryInv_def)
  show ?thesis
  proof (cases "funders s a")
    case True
    with c fl show ?thesis by (simp add: transact_def addFunds_known)
  next
    case False
    have eq: "s\<lparr>balance := balance s + unat v,
            numOfFunders := numOfFunders s + 1,
            funders := (funders s)(a := True),
            lutFunders := (lutFunders s)(numOfFunders s := a)\<rparr> =
       (s\<lparr>numOfFunders := numOfFunders s + 1,
            lutFunders := (lutFunders s)(numOfFunders s := a)\<rparr>)\<lparr>balance := balance s + unat v, funders := (funders s)(a := True)\<rparr>"
      by simp
    from False c fl nf show ?thesis
      by (simp add: transact_def addFunds_new eq funderOrder_append del: faucet.update_convs)
  qed
next
  case False
  show ?thesis
  proof (cases "dispatch checked c s")
    case (Inl e)
    with False show ?thesis by (cases c) (simp_all add: transact_def)
  next
    case (Inr s')
    with False obtain b acc where "s' = s\<lparr>balance := b, accounts := acc\<rparr>"
      using dispatch_other [of checked c s s'] by blast
    with Inr False show ?thesis by (cases c) (simp_all add: transact_def)
  qed
qed

lemma funderOrder_run:
  "registryInv s \<Longrightarrow>
   funderOrder (run checked cs s) = firstOccurrences (funderOrder s @ depositors cs)"
proof (induction cs arbitrary: s)
  case Nil
  then show ?case by (simp add: registryInv_def firstOccurrences_distinct)
next
  case (Cons c cs)
  have inv': "registryInv (transact checked c s)"
    using Cons.prems by (rule registryInv_transact)
  have "funderOrder (run checked (c # cs) s) =
        firstOccurrences (funderOrder (transact checked c s) @ depositors cs)"
    using Cons.IH [OF inv'] by simp
  also have "\<dots> = firstOccurrences (funderOrder s @ depositors (c # cs))"
    using Cons.prems by (cases c) (simp_all add: funderOrder_transact firstOccurrences_repeat)
  finally show ?case .
qed

lemma funderOrder_constructor [simp]: "funderOrder (constructor d b accts) = []"
  by (simp add: funderOrder_def constructor_def)

lemma depositors_AddFunds [simp]:
  "depositors (map (\<lambda>(a, v). AddFunds a v) ds) = map fst ds"
  by (induction ds) auto

lemma depositors_map [simp]:
  "depositors (map (\<lambda>k. AddFunds (f k) (g k)) ks) = map f ks"
  by (induction ks) auto

lemma inj_on_word_of_nat:
  "n \<le> 2 ^ LENGTH('a) \<Longrightarrow> inj_on (of_nat :: nat \<Rightarrow> 'a::len word) {..<n}"
proof (rule inj_onI)
  fix x y
  assume n: "n \<le> 2 ^ LENGTH('a)" and x: "x \<in> {..<n}" and y: "y \<in> {..<n}"
    and eq: "(of_nat x :: 'a word) = of_nat y"
  from x y n have bx: "x < 2 ^ LENGTH('a)" and "y < 2 ^ LENGTH('a)" by simp_all
  then have tx: "take_bit LENGTH('a) x = x" and ty: "take_bit LENGTH('a) y = y"
    by (simp_all add: take_bit_nat_eq_self)
  from eq have "take_bit LENGTH('a) x = take_bit LENGTH('a) y"
    by (simp only: word_of_nat_eq_iff)
  then show "x = y" unfolding tx ty .
qed

lemma distinct_addresses_upt:
  "n \<le> 2 ^ 160 \<Longrightarrow> distinct (map of_nat [0 ..< n] :: address list)"
  using inj_on_word_of_nat [where 'a = 160, of n]
  by (simp add: distinct_map lessThan_atLeast0)

lemma run_append: "run checked (cs @ ds) s = run checked ds (run checked cs s)"
  by (induction cs arbitrary: s) simp_all

text \<open>Every state the contract can be in is the state after some calls since deployment.\<close>

lemma reachable_is_run:
  "reachable checked s \<Longrightarrow> \<exists>sender bal accts cs. s = run checked cs (constructor sender bal accts)"
proof (induction rule: reachable.induct)
  case (deployed sender bal accts)
  have "constructor sender bal accts = run checked [] (constructor sender bal accts)" by simp
  then show ?case by blast
next
  case (called s c)
  then obtain sender bal accts cs where "s = run checked cs (constructor sender bal accts)"
    by blast
  then have "transact checked c s = run checked (cs @ [c]) (constructor sender bal accts)"
    by (simp add: run_append)
  then show ?case by blast
qed

section \<open>Withdrawals\<close>

text \<open>
  C1. A withdrawal of more than 100000000000000000 wei (0.1 ether) fails with
  LimitExceeded, whoever calls and whatever the contract holds, and the failed call
  changes nothing: balance, funder count, funder list and funder flags are as before.
\<close>

theorem withdraw_over_limit:
  "100000000000000000 < amount \<Longrightarrow>
     withdraw sender accepts amount s = Inl LimitExceeded \<and>
     transact checked (Withdraw sender accepts amount) s = s"
  by (simp add: withdraw_def limitWithdraw_def transact_def not_le [symmetric])

theorem withdraw_over_limit_witness:
  "(100000000000000000 :: uint) < 500000000000000000 \<and>
   withdraw 7 True 500000000000000000 (constructor 1 2000000000000000000 (\<lambda>_. 0)) = Inl LimitExceeded \<and>
   transact True (Withdraw 7 True 500000000000000000) (constructor 1 2000000000000000000 (\<lambda>_. 0))
     = constructor 1 2000000000000000000 (\<lambda>_. 0)"
  using withdraw_over_limit [of 500000000000000000 7 True "constructor 1 2000000000000000000 (\<lambda>_. 0)" True]
  by simp

text \<open>
  C2. A withdrawal of at most 100000000000000000 wei (0.1 ether) by a caller whose
  account takes the payment (registered funder or not) succeeds exactly when the
  contract holds at least the amount. On success the contract's balance goes down by
  the amount and the caller's goes up by the same; nothing else changes. When the
  contract holds less it fails with InsufficientFunds, and when the contract holds
  enough and the caller's account does not take the payment it fails with
  PaymentRefused; the state is then as before.
\<close>

theorem withdraw_within_limit_accepted:
  "amount \<le> 100000000000000000 \<Longrightarrow>
     ((\<exists>s'. withdraw sender accepts amount s = Inr s') \<longleftrightarrow>
        unat amount \<le> balance s \<and> accepts) \<and>
     (accepts \<longrightarrow>
        ((\<exists>s'. withdraw sender accepts amount s = Inr s') \<longleftrightarrow> unat amount \<le> balance s)) \<and>
     (unat amount \<le> balance s \<and> accepts \<longrightarrow>
        withdraw sender accepts amount s =
          Inr (s\<lparr>balance := balance s - unat amount,
                 accounts := (accounts s)(sender := accounts s sender + unat amount)\<rparr>) \<and>
        balance (transact checked (Withdraw sender accepts amount) s) + unat amount = balance s \<and>
        accounts (transact checked (Withdraw sender accepts amount) s) sender
          = accounts s sender + unat amount) \<and>
     (balance s < unat amount \<longrightarrow>
        withdraw sender accepts amount s = Inl InsufficientFunds \<and>
        transact checked (Withdraw sender accepts amount) s = s) \<and>
     (unat amount \<le> balance s \<and> \<not> accepts \<longrightarrow>
        withdraw sender accepts amount s = Inl PaymentRefused \<and>
        transact checked (Withdraw sender accepts amount) s = s)"
  by (simp add: withdraw_def limitWithdraw_def transfer_def transact_def)

theorem withdraw_within_limit_accepted_witness:
  "(100000000000000000 :: uint) \<le> 100000000000000000 \<and>
   unat (100000000000000000 :: uint) \<le> balance (constructor 1 5000000000000000000 (\<lambda>_. 0)) \<and>
   (\<exists>s'. withdraw 3 True 100000000000000000 (constructor 1 5000000000000000000 (\<lambda>_. 0)) = Inr s') \<and>
   balance (transact True (Withdraw 3 True 100000000000000000) (constructor 1 5000000000000000000 (\<lambda>_. 0)))
     = 4900000000000000000 \<and>
   accounts (transact True (Withdraw 3 True 100000000000000000) (constructor 1 5000000000000000000 (\<lambda>_. 0))) 3
     = 100000000000000000 \<and>
   balance (constructor 1 5 (\<lambda>_. 0)) < unat (100000000000000000 :: uint) \<and>
   withdraw 3 True 100000000000000000 (constructor 1 5 (\<lambda>_. 0)) = Inl InsufficientFunds \<and>
   transact True (Withdraw 3 True 100000000000000000) (constructor 1 5 (\<lambda>_. 0)) = constructor 1 5 (\<lambda>_. 0) \<and>
   withdraw 3 False 100000000000000000 (constructor 1 5000000000000000000 (\<lambda>_. 0)) = Inl PaymentRefused \<and>
   transact True (Withdraw 3 False 100000000000000000) (constructor 1 5000000000000000000 (\<lambda>_. 0))
     = constructor 1 5000000000000000000 (\<lambda>_. 0)"
  using withdraw_within_limit_accepted [of 100000000000000000 3 True "constructor 1 5000000000000000000 (\<lambda>_. 0)" True]
    withdraw_within_limit_accepted [of 100000000000000000 3 True "constructor 1 5 (\<lambda>_. 0)" True]
    withdraw_within_limit_accepted [of 100000000000000000 3 False "constructor 1 5000000000000000000 (\<lambda>_. 0)" True]
  by (simp add: constructor_def)

text \<open>
  C2 as it was stated, for every caller, does not hold. The contract holds 100 wei
  and a caller whose account does not take payments asks for 1 wei: the amount is
  below the ceiling and the contract holds enough, and the call fails.
\<close>

theorem withdraw_within_limit_refused:
  "(1 :: uint) \<le> 100000000000000000 \<and>
   unat (1 :: uint) \<le> balance (constructor 1 100 (\<lambda>_. 0)) \<and>
   withdraw 3 False 1 (constructor 1 100 (\<lambda>_. 0)) = Inl PaymentRefused \<and>
   transact True (Withdraw 3 False 1) (constructor 1 100 (\<lambda>_. 0)) = constructor 1 100 (\<lambda>_. 0)"
  by (simp add: withdraw_def limitWithdraw_def transfer_def transact_def constructor_def)

section \<open>The funder registry\<close>

text \<open>
  C3. After any finite sequence of deposits since deployment, from any callers, with
  any amounts and any repetition, \<^verbatim>\<open>getAllFunders\<close> returns the depositors, each
  once, in the order of their first deposits: the list has no duplicates, has the
  depositors as its elements, and lists \<open>x\<close> before \<open>y\<close> only when the first deposit of
  \<open>x\<close> came before the first deposit of \<open>y\<close>.
\<close>

theorem getAllFunders_after_deposits:
  "getAllFunders (run checked (map (\<lambda>(a, v). AddFunds a v) ds) (constructor d b accts))
     = Inr (firstOccurrences (map fst ds)) \<and>
   distinct (firstOccurrences (map fst ds)) \<and>
   set (firstOccurrences (map fst ds)) = set (map fst ds) \<and>
   sorted_wrt (\<lambda>x y. firstIndex (map fst ds) x < firstIndex (map fst ds) y)
     (firstOccurrences (map fst ds))"
  by (simp add: getAllFunders_eq funderOrder_run registryInv_constructor
      sorted_wrt_firstOccurrences del: set_map)

theorem getAllFunders_after_deposits_witness:
  "getAllFunders (run True (map (\<lambda>(a, v). AddFunds a v)
       [(10, 2000000000000000000), (11, 2000000000000000000), (10, 1000000000000000000)])
       (constructor 1 0 (\<lambda>_. 0))) = Inr [10, 11]"
proof -
  have "firstOccurrences (map fst
      [(10 :: address, 2000000000000000000 :: uint), (11, 2000000000000000000), (10, 1000000000000000000)])
      = [10, 11]"
    by simp
  with getAllFunders_after_deposits [of True
      "[(10, 2000000000000000000), (11, 2000000000000000000), (10, 1000000000000000000)]" 1 0 "\<lambda>_. 0"]
  show ?thesis by (simp only:)
qed

text \<open>
  C4. In every state reachable from deployment by any calls (deposits, direct
  payments, withdrawals, the owner's functions, the read-only functions), the funder
  count is the length of the funder list, the list has no duplicates, and an address
  is flagged as funder exactly when it is in the list. The list is what
  \<^verbatim>\<open>getAllFunders\<close> returns.
\<close>

theorem registry_invariants:
  "reachable checked s \<Longrightarrow>
     unat (numOfFunders s) = length (funderOrder s) \<and>
     distinct (funderOrder s) \<and>
     (\<forall>a. funders s a \<longleftrightarrow> a \<in> set (funderOrder s)) \<and>
     getAllFunders s = Inr (funderOrder s)"
  using reachable_registryInv [of checked s]
  by (simp add: registryInv_def getAllFunders_eq)

theorem registry_invariants_witness:
  "reachable True (run True [AddFunds 10 2, AddFunds 11 2, AddFunds 10 1, Withdraw 12 True 1] (constructor 1 0 (\<lambda>_. 0))) \<and>
   unat (numOfFunders (run True [AddFunds 10 2, AddFunds 11 2, AddFunds 10 1, Withdraw 12 True 1] (constructor 1 0 (\<lambda>_. 0))))
     = length (funderOrder (run True [AddFunds 10 2, AddFunds 11 2, AddFunds 10 1, Withdraw 12 True 1] (constructor 1 0 (\<lambda>_. 0)))) \<and>
   distinct (funderOrder (run True [AddFunds 10 2, AddFunds 11 2, AddFunds 10 1, Withdraw 12 True 1] (constructor 1 0 (\<lambda>_. 0)))) \<and>
   (\<forall>a. funders (run True [AddFunds 10 2, AddFunds 11 2, AddFunds 10 1, Withdraw 12 True 1] (constructor 1 0 (\<lambda>_. 0))) a
        \<longleftrightarrow> a \<in> set (funderOrder (run True [AddFunds 10 2, AddFunds 11 2, AddFunds 10 1, Withdraw 12 True 1] (constructor 1 0 (\<lambda>_. 0))))) \<and>
   funderOrder (run True [AddFunds 10 2, AddFunds 11 2, AddFunds 10 1, Withdraw 12 True 1] (constructor 1 0 (\<lambda>_. 0))) = [10, 11]"
proof -
  let ?s = "run True [AddFunds 10 2, AddFunds 11 2, AddFunds 10 1, Withdraw 12 True 1] (constructor 1 0 (\<lambda>_. 0))"
  have r: "reachable True ?s"
    by (rule reachable_run) (rule reachable.deployed)
  have fo: "funderOrder ?s = [10, 11]"
    by (simp add: funderOrder_run registryInv_constructor del: run.simps)
  note c = registry_invariants [OF r]
  show ?thesis
    by (intro conjI r fo c [THEN conjunct1] c [THEN conjunct2, THEN conjunct1]
        c [THEN conjunct2, THEN conjunct2, THEN conjunct1])
qed

text \<open>
  C5. In every state the contract can be in, a deposit never fails, whatever the
  caller and the value sent (zero included). When the caller is not flagged as funder
  yet, the deposit appends the caller to the funder list, at the index that was the
  funder count before the call, flags the caller, and raises the funder count by one.
\<close>

theorem deposit_registers_new_funder:
  "reachable checked s \<Longrightarrow>
     (\<exists>s'. addFunds checked a v s = Inr s') \<and>
     (\<not> funders s a \<longrightarrow>
        (\<exists>s'. addFunds checked a v s = Inr s' \<and>
              funderOrder s' = funderOrder s @ [a] \<and>
              funderOrder s' ! unat (numOfFunders s) = a \<and>
              lutFunders s' = (lutFunders s)(numOfFunders s := a) \<and>
              funders s' = (funders s)(a := True) \<and>
              unat (numOfFunders s') = unat (numOfFunders s) + 1))"
proof -
  assume r: "reachable checked s"
  then have inv: "registryInv s" by (rule reachable_registryInv)
  then have nf: "numOfFunders s \<noteq> - 1" by (rule registryInv_not_full)
  have eq: "s\<lparr>balance := balance s + unat v,
            numOfFunders := numOfFunders s + 1,
            funders := (funders s)(a := True),
            lutFunders := (lutFunders s)(numOfFunders s := a)\<rparr> =
       (s\<lparr>numOfFunders := numOfFunders s + 1,
            lutFunders := (lutFunders s)(numOfFunders s := a)\<rparr>)\<lparr>balance := balance s + unat v, funders := (funders s)(a := True)\<rparr>"
    by simp
  have fo: "funderOrder (s\<lparr>balance := balance s + unat v,
            numOfFunders := numOfFunders s + 1,
            funders := (funders s)(a := True),
            lutFunders := (lutFunders s)(numOfFunders s := a)\<rparr>) = funderOrder s @ [a]"
    using nf by (simp add: eq funderOrder_append del: faucet.update_convs)
  show ?thesis
  proof (cases "funders s a")
    case True
    then show ?thesis by (simp add: addFunds_known)
  next
    case False
    with nf show ?thesis
      by (simp add: addFunds_new fo unat_succ nth_append)
  qed
qed

theorem deposit_registers_new_funder_witness:
  "reachable True (constructor 1 0 (\<lambda>_. 0)) \<and>
   \<not> funders (constructor 1 0 (\<lambda>_. 0)) 10 \<and>
   (\<exists>s'. addFunds True 10 0 (constructor 1 0 (\<lambda>_. 0)) = Inr s' \<and>
         funderOrder s' = [10] \<and> funderOrder s' ! 0 = 10 \<and>
         funders s' = (\<lambda>_. False)(10 := True) \<and> unat (numOfFunders s') = 1)"
proof -
  let ?s = "constructor 1 0 (\<lambda>_. 0)"
  have r: "reachable True ?s" by (rule reachable.deployed)
  have n: "\<not> funders ?s 10" by (simp add: constructor_def)
  have z: "numOfFunders ?s = 0" "funders ?s = (\<lambda>_. False)"
    by (simp_all add: constructor_def)
  have z': "funderOrder ?s = []" by (rule funderOrder_constructor)
  from deposit_registers_new_funder [OF r, of 10 0] n
  obtain s' where "addFunds True 10 0 ?s = Inr s'"
    and "funderOrder s' = funderOrder ?s @ [10]"
    and "funderOrder s' ! unat (numOfFunders ?s) = 10"
    and "funders s' = (funders ?s)(10 := True)"
    and "unat (numOfFunders s') = unat (numOfFunders ?s) + 1"
    by (elim conjE impE exE) assumption
  then have "addFunds True 10 0 ?s = Inr s' \<and>
         funderOrder s' = [10] \<and> funderOrder s' ! 0 = 10 \<and>
         funders s' = (\<lambda>_. False)(10 := True) \<and> unat (numOfFunders s') = 1"
    by (simp add: z z')
  then have "\<exists>s'. addFunds True 10 0 ?s = Inr s' \<and>
         funderOrder s' = [10] \<and> funderOrder s' ! 0 = 10 \<and>
         funders s' = (\<lambda>_. False)(10 := True) \<and> unat (numOfFunders s') = 1"
    by (rule exI)
  with r n show ?thesis by (intro conjI)
qed

text \<open>
  C6. In any state, a deposit from a caller already flagged as funder leaves the funder
  count, the funder list and the funder flags as they are, and the contract's balance
  goes up by the value sent.
\<close>

theorem deposit_by_known_funder:
  "funders s a \<Longrightarrow>
     addFunds checked a v s = Inr (s\<lparr>balance := balance s + unat v\<rparr>) \<and>
     numOfFunders (transact checked (AddFunds a v) s) = numOfFunders s \<and>
     funderOrder (transact checked (AddFunds a v) s) = funderOrder s \<and>
     funders (transact checked (AddFunds a v) s) = funders s \<and>
     lutFunders (transact checked (AddFunds a v) s) = lutFunders s \<and>
     balance (transact checked (AddFunds a v) s) = balance s + unat v"
  by (simp add: addFunds_known transact_def)

theorem deposit_by_known_funder_witness:
  "funders (transact True (AddFunds 10 5) (constructor 1 0 (\<lambda>_. 0))) 10 \<and>
   numOfFunders (transact True (AddFunds 10 7) (transact True (AddFunds 10 5) (constructor 1 0 (\<lambda>_. 0)))) = 1 \<and>
   funderOrder (transact True (AddFunds 10 7) (transact True (AddFunds 10 5) (constructor 1 0 (\<lambda>_. 0)))) = [10] \<and>
   balance (transact True (AddFunds 10 7) (transact True (AddFunds 10 5) (constructor 1 0 (\<lambda>_. 0)))) = 12"
proof -
  let ?s = "transact True (AddFunds 10 5) (constructor 1 0 (\<lambda>_. 0))"
  have s: "?s = \<lparr>owner = 1, testNum = 1000, numOfFunders = 1,
      funders = (\<lambda>_. False)(10 := True), lutFunders = (\<lambda>_. 0)(0 := 10),
      balance = 5, accounts = (\<lambda>_. 0)\<rparr>"
    by (simp add: transact_def addFunds_def payable_def increment_def constructor_def)
  have f: "funders ?s 10" by (simp add: s)
  have fo: "funderOrder ?s = [10]" by (simp add: s funderOrder_def)
  have n: "numOfFunders ?s = 1" by (simp add: s)
  have b: "balance ?s + unat (7 :: uint) = 12" by (simp add: s)
  from deposit_by_known_funder [OF f, of True 7] f show ?thesis
    by (simp only: fo n b)
qed

text \<open>
  C7. \<^verbatim>\<open>getFunderAtIndex\<close> has no failing path: it returns an address for every index.
  In the state after any calls \<open>cs\<close> since deployment, an index below the funder
  count gives the depositor at that position in the order of first deposits, and an
  index at or above the funder count gives the zero address.
\<close>

theorem getFunderAtIndex_total:
  "s = run checked cs (constructor d b accts) \<Longrightarrow>
     unat (numOfFunders s) = length (firstOccurrences (depositors cs)) \<and>
     getFunderAtIndex i s =
       (if unat i < unat (numOfFunders s) then firstOccurrences (depositors cs) ! unat i else 0)"
proof -
  assume s: "s = run checked cs (constructor d b accts)"
  have "reachable checked s"
    unfolding s by (rule reachable_run) (rule reachable.deployed)
  then have inv: "registryInv s" by (rule reachable_registryInv)
  have fo: "funderOrder s = firstOccurrences (depositors cs)"
    unfolding s by (simp add: funderOrder_run registryInv_constructor)
  have len: "unat (numOfFunders s) = length (firstOccurrences (depositors cs))"
    using fo length_funderOrder [of s] by simp
  have uc: "unat (ucast i :: uint) = unat i" by transfer simp
  have idx: "(of_nat (unat i) :: uint) = ucast i" by transfer simp
  show ?thesis
  proof (cases "unat i < unat (numOfFunders s)")
    case True
    then have "funderOrder s ! unat i = lutFunders s (of_nat (unat i))"
      by (rule nth_funderOrder)
    with True len show ?thesis by (simp add: getFunderAtIndex_def fo idx)
  next
    case False
    then have "numOfFunders s \<le> ucast i" by (simp add: word_le_nat_alt uc)
    with inv have "lutFunders s (ucast i) = 0" by (simp add: registryInv_def)
    with False len show ?thesis by (simp add: getFunderAtIndex_def)
  qed
qed

theorem getFunderAtIndex_total_witness:
  "unat (numOfFunders (run True [AddFunds 10 2, AddFunds 11 2, AddFunds 10 1] (constructor 1 0 (\<lambda>_. 0)))) = 2 \<and>
   getFunderAtIndex 0 (run True [AddFunds 10 2, AddFunds 11 2, AddFunds 10 1] (constructor 1 0 (\<lambda>_. 0))) = 10 \<and>
   getFunderAtIndex 1 (run True [AddFunds 10 2, AddFunds 11 2, AddFunds 10 1] (constructor 1 0 (\<lambda>_. 0))) = 11 \<and>
   getFunderAtIndex 2 (run True [AddFunds 10 2, AddFunds 11 2, AddFunds 10 1] (constructor 1 0 (\<lambda>_. 0))) = 0 \<and>
   getFunderAtIndex 255 (run True [AddFunds 10 2, AddFunds 11 2, AddFunds 10 1] (constructor 1 0 (\<lambda>_. 0))) = 0"
proof -
  let ?cs = "[AddFunds 10 2, AddFunds 11 2, AddFunds 10 1]"
  let ?s = "run True ?cs (constructor 1 0 (\<lambda>_. 0))"
  have fo: "firstOccurrences (depositors ?cs) = [10, 11]" by simp
  have u: "unat (0 :: uint8) = 0" "unat (1 :: uint8) = 1" "unat (2 :: uint8) = 2" "unat (255 :: uint8) = 255"
    by simp_all
  note t = getFunderAtIndex_total [OF refl, of True ?cs 1 0 "\<lambda>_. 0", unfolded fo]
  have n: "unat (numOfFunders ?s) = 2" using t [of 0] by (simp del: run.simps)
  have "getFunderAtIndex 0 ?s = 10" using t [of 0] by (simp add: n del: run.simps)
  moreover have "getFunderAtIndex 1 ?s = 11" using t [of 1] by (simp add: n del: run.simps)
  moreover have "getFunderAtIndex 2 ?s = 0" using t [of 2] by (simp add: n del: run.simps)
  moreover have "getFunderAtIndex 255 ?s = 0" using t [of 255] by (simp add: n del: run.simps)
  ultimately show ?thesis using n by (intro conjI)
qed

text \<open>
  C10. The index of \<^verbatim>\<open>getFunderAtIndex\<close> has 8 bits, so it only reads positions 0 to
  255 of the funder list. Once more than 256 addresses have deposited, a funder at
  position 256 or above is in the list \<^verbatim>\<open>getAllFunders\<close> returns, and no index makes
  \<^verbatim>\<open>getFunderAtIndex\<close> return it.
\<close>

theorem getFunderAtIndex_reach:
  "reachable checked s \<Longrightarrow> 256 \<le> j \<Longrightarrow> j < unat (numOfFunders s) \<Longrightarrow>
     (\<exists>fs. getAllFunders s = Inr fs \<and> j < length fs \<and>
        (\<forall>i. unat i < 256 \<and> getFunderAtIndex i s = fs ! unat i \<and>
             getFunderAtIndex i s \<noteq> fs ! j))"
proof -
  assume r: "reachable checked s" and j: "256 \<le> j" "j < unat (numOfFunders s)"
  from r have inv: "registryInv s" by (rule reachable_registryInv)
  then have d: "distinct (funderOrder s)" by (simp add: registryInv_def)
  have q: "unat i < 256 \<and> getFunderAtIndex i s = funderOrder s ! unat i \<and>
           getFunderAtIndex i s \<noteq> funderOrder s ! j" for i
  proof -
    have small: "unat i < 256" by (rule unat_uint8_less)
    then have lt: "unat i < unat (numOfFunders s)" using j by simp
    have idx: "(of_nat (unat i) :: uint) = ucast i" by transfer simp
    have at: "getFunderAtIndex i s = funderOrder s ! unat i"
      using lt by (simp add: nth_funderOrder getFunderAtIndex_def idx)
    have "funderOrder s ! unat i \<noteq> funderOrder s ! j"
      using d lt j small by (simp add: nth_eq_iff_index_eq)
    with small at show ?thesis by simp
  qed
  have len: "j < length (funderOrder s)" using j by simp
  have every: "\<forall>i. unat i < 256 \<and> getFunderAtIndex i s = funderOrder s ! unat i \<and>
             getFunderAtIndex i s \<noteq> funderOrder s ! j"
    by (intro allI q)
  show ?thesis
    by (rule exI [of _ "funderOrder s"]) (intro conjI getAllFunders_eq len every)
qed

theorem getFunderAtIndex_reach_witness:
  "reachable True (run True (map (\<lambda>k. AddFunds (of_nat k) 0) [0 ..< 257]) (constructor 0 0 (\<lambda>_. 0))) \<and>
   (256 :: nat) \<le> 256 \<and>
   256 < unat (numOfFunders (run True (map (\<lambda>k. AddFunds (of_nat k) 0) [0 ..< 257]) (constructor 0 0 (\<lambda>_. 0)))) \<and>
   (\<exists>fs. getAllFunders (run True (map (\<lambda>k. AddFunds (of_nat k) 0) [0 ..< 257]) (constructor 0 0 (\<lambda>_. 0))) = Inr fs \<and>
      256 < length fs \<and> fs ! 256 = 256 \<and>
      (\<forall>i. unat i < 256 \<and>
           getFunderAtIndex i (run True (map (\<lambda>k. AddFunds (of_nat k) 0) [0 ..< 257]) (constructor 0 0 (\<lambda>_. 0))) = fs ! unat i \<and>
           getFunderAtIndex i (run True (map (\<lambda>k. AddFunds (of_nat k) 0) [0 ..< 257]) (constructor 0 0 (\<lambda>_. 0))) \<noteq> fs ! 256))"
proof -
  let ?s = "run True (map (\<lambda>k. AddFunds (of_nat k) 0) [0 ..< 257]) (constructor 0 0 (\<lambda>_. 0))"
  have r: "reachable True ?s"
    by (rule reachable_run) (rule reachable.deployed)
  have "distinct (map of_nat [0 ..< 257] :: address list)"
    by (rule distinct_addresses_upt) simp
  then have fo: "funderOrder ?s = map of_nat [0 ..< 257]"
    by (simp only: funderOrder_run [OF registryInv_constructor] funderOrder_constructor
        depositors_map append_Nil firstOccurrences_distinct)
  have "length (funderOrder ?s) = 257"
    unfolding fo by (simp only: length_map length_upt diff_zero)
  then have n: "256 < unat (numOfFunders ?s)"
    by (simp only: length_funderOrder)
  have at: "funderOrder ?s ! 256 = 256"
    unfolding fo by (simp del: upt_rec_numeral)
  from getFunderAtIndex_reach [OF r order_refl n]
  obtain fs where g: "getAllFunders ?s = Inr fs" and l: "256 < length fs"
    and every: "\<forall>i. unat i < 256 \<and> getFunderAtIndex i ?s = fs ! unat i \<and>
             getFunderAtIndex i ?s \<noteq> fs ! 256"
    by (elim exE conjE)
  from g have fs: "fs = funderOrder ?s" by (simp only: getAllFunders_eq sum.inject)
  have at': "fs ! 256 = 256" unfolding fs by (rule at)
  have le: "(256 :: nat) \<le> 256" by (rule order_refl)
  show ?thesis
    by (intro conjI r le n exI [of _ fs] g l at' every)
qed

section \<open>The owner's functions and direct payments\<close>

text \<open>
  C8. Each of \<^verbatim>\<open>test1\<close> and \<^verbatim>\<open>test2\<close> fails, with NotAuthorized, exactly when the
  caller is not the owner, and a call by the owner succeeds and changes nothing.
\<close>

theorem admin_only_owner:
  "test1 sender s = (if sender = owner s then Inr s else Inl NotAuthorized) \<and>
   test2 sender s = (if sender = owner s then Inr s else Inl NotAuthorized) \<and>
   transact checked (Test1 sender) s = s \<and>
   transact checked (Test2 sender) s = s"
  by (simp add: test1_def test2_def onlyOwner_def transact_def)

theorem admin_only_owner_witness:
  "test1 1 (constructor 1 0 (\<lambda>_. 0)) = Inr (constructor 1 0 (\<lambda>_. 0)) \<and>
   test1 2 (constructor 1 0 (\<lambda>_. 0)) = Inl NotAuthorized \<and>
   test2 1 (constructor 1 0 (\<lambda>_. 0)) = Inr (constructor 1 0 (\<lambda>_. 0)) \<and>
   test2 2 (constructor 1 0 (\<lambda>_. 0)) = Inl NotAuthorized"
  using admin_only_owner [of 1 "constructor 1 0 (\<lambda>_. 0)" True]
    admin_only_owner [of 2 "constructor 1 0 (\<lambda>_. 0)" True]
  by (simp add: constructor_def)

text \<open>
  C9. Wei sent to the contract directly, without calling \<^verbatim>\<open>addFunds\<close>, is added to the
  contract's balance; the funder count, list and flags and the owner stay as they are,
  and the payment never fails.
\<close>

theorem receive_only_credits:
  "receive sender v s = Inr (s\<lparr>balance := balance s + unat v\<rparr>) \<and>
   balance (transact checked (Receive sender v) s) = balance s + unat v \<and>
   numOfFunders (transact checked (Receive sender v) s) = numOfFunders s \<and>
   funderOrder (transact checked (Receive sender v) s) = funderOrder s \<and>
   funders (transact checked (Receive sender v) s) = funders s \<and>
   lutFunders (transact checked (Receive sender v) s) = lutFunders s \<and>
   owner (transact checked (Receive sender v) s) = owner s"
  by (simp add: receive_def payable_def transact_def)

theorem receive_only_credits_witness:
  "receive 5 7 (constructor 1 3 (\<lambda>_. 0)) = Inr (constructor 1 10 (\<lambda>_. 0)) \<and>
   balance (transact True (Receive 5 7) (constructor 1 3 (\<lambda>_. 0))) = 10 \<and>
   funderOrder (transact True (Receive 5 7) (constructor 1 3 (\<lambda>_. 0))) = []"
  using receive_only_credits [of 5 7 "constructor 1 3 (\<lambda>_. 0)" True]
  by (simp add: constructor_def funderOrder_def)

end
